theory Spec2Isabelle
  imports Main
begin

section \<open>Data model (types.ts)\<close>

datatype JobStatus = PENDING | PROCESSING | COMPLETED | FAILED

datatype InputType = TEXT | IMAGE

datatype ModelType = VEO_FAST | VEO_HQ

datatype AspectRatio = RATIO_16_9 | RATIO_9_16

datatype Resolution = RES_720P | RES_1080P

text \<open>An optional field of the TypeScript interfaces is an \<open>option\<close>: \<open>None\<close> is
  \<^verbatim>\<open>undefined\<close>.\<close>

record JobConfig =
  prompt :: string
  inputType :: InputType
  model :: ModelType
  aspectRatio :: AspectRatio
  resolution :: Resolution
  imageBase64 :: "string option"
  imageMimeType :: "string option"

text \<open>The field \<^verbatim>\<open>id\<close> of the interface \<^verbatim>\<open>Job\<close> is named \<open>jid\<close> here, since
  \<open>id\<close> is the identity function of HOL. Timestamps are the integers that
  \<^verbatim>\<open>Date.now()\<close> returns (milliseconds).\<close>

record Job =
  jid :: string
  config :: JobConfig
  status :: JobStatus
  videoUri :: "string option"
  downloadUrl :: "string option"
  error :: "string option"
  createdAt :: int
  startedAt :: "int option"
  completedAt :: "int option"

text \<open>The argument \<^verbatim>\<open>updates?: Partial<Job>\<close> of \<^verbatim>\<open>updateJobStatus\<close>. For every key
  the outer \<open>None\<close> says that the object literal does not have the key, and
  \<open>Some v\<close> that it has the key with value \<open>v\<close> (so \<open>Some None\<close> is the literal
  \<^verbatim>\<open>{ error: undefined }\<close>). The program passes only the five keys below.\<close>

record JobUpdates =
  u_videoUri :: "string option option"
  u_downloadUrl :: "string option option"
  u_error :: "string option option"
  u_startedAt :: "int option option"
  u_completedAt :: "int option option"

definition no_updates :: JobUpdates where
  "no_updates = \<lparr>u_videoUri = None, u_downloadUrl = None, u_error = None,
     u_startedAt = None, u_completedAt = None\<rparr>"

text \<open>One key of the object spread \<^verbatim>\<open>{ ...job, ...updates }\<close>: a key of \<^verbatim>\<open>updates\<close>
  overrides the key of \<^verbatim>\<open>job\<close>, also when its value is \<^verbatim>\<open>undefined\<close>.\<close>

definition spread :: "'a option \<Rightarrow> 'a option option \<Rightarrow> 'a option" where
  "spread old u = (case u of None \<Rightarrow> old | Some v \<Rightarrow> v)"

text \<open>\<^verbatim>\<open>{ ...job, status, ...updates }\<close>\<close>

definition merge_job :: "Job \<Rightarrow> JobStatus \<Rightarrow> JobUpdates \<Rightarrow> Job" where
  "merge_job job st updates =
     job\<lparr>status := st,
         videoUri := spread (videoUri job) (u_videoUri updates),
         downloadUrl := spread (downloadUrl job) (u_downloadUrl updates),
         error := spread (error job) (u_error updates),
         startedAt := spread (startedAt job) (u_startedAt updates),
         completedAt := spread (completedAt job) (u_completedAt updates)\<rparr>"

section \<open>Job management (the App component)\<close>

definition MAX_CONCURRENT_JOBS :: nat where
  "MAX_CONCURRENT_JOBS = 4"

definition RATE_LIMIT_WINDOW_MS :: int where
  "RATE_LIMIT_WINDOW_MS = 60000"

definition MAX_STARTS_PER_WINDOW :: nat where
  "MAX_STARTS_PER_WINDOW = 4"

text \<open>\<^verbatim>\<open>addJobs(config, count)\<close>. \<^verbatim>\<open>Array.from({ length: count })\<close> has \<open>count\<close>
  elements when \<open>count\<close> is positive and none when it is zero or negative (the
  length of an array-like object is clamped at 0, as it is for \<^verbatim>\<open>NaN\<close>), which is
  \<open>nat count\<close>. The
  callback of \<^verbatim>\<open>map\<close> runs once per element; \<open>uuid k\<close> and \<open>now k\<close> are what
  \<^verbatim>\<open>crypto.randomUUID()\<close> and \<^verbatim>\<open>Date.now()\<close> return in the \<open>k\<close>-th run. The state
  update \<^verbatim>\<open>setJobs(prev => [...prev, ...newJobs])\<close> is applied to the job list.\<close>

definition newJob :: "JobConfig \<Rightarrow> string \<Rightarrow> int \<Rightarrow> Job" where
  "newJob cfg i t =
     \<lparr>jid = i, config = cfg, status = PENDING, videoUri = None, downloadUrl = None,
      error = None, createdAt = t, startedAt = None, completedAt = None\<rparr>"

definition addJobs :: "JobConfig \<Rightarrow> int \<Rightarrow> (nat \<Rightarrow> string) \<Rightarrow> (nat \<Rightarrow> int) \<Rightarrow> Job list \<Rightarrow> Job list" where
  "addJobs cfg count uuid now prev =
     (let newJobs = map (\<lambda>k. newJob cfg (uuid k) (now k)) [0 ..< nat count]
      in prev @ newJobs)"

text \<open>\<^verbatim>\<open>updateJobStatus(id, status, updates)\<close>\<close>

definition updateJobStatus :: "string \<Rightarrow> JobStatus \<Rightarrow> JobUpdates \<Rightarrow> Job list \<Rightarrow> Job list" where
  "updateJobStatus i st updates prev =
     map (\<lambda>job. if jid job = i then merge_job job st updates else job) prev"

text \<open>\<^verbatim>\<open>handleRetry(id)\<close>\<close>

definition handleRetry :: "string \<Rightarrow> Job list \<Rightarrow> Job list" where
  "handleRetry i prev = updateJobStatus i PENDING (no_updates\<lparr>u_error := Some None\<rparr>) prev"

section \<open>Queue processor (the App component)\<close>

text \<open>The two React state variables. \<^verbatim>\<open>jobsRef.current\<close> and
  \<^verbatim>\<open>queueStartsRef.current\<close> are assigned from them at every render, and the
  functional updates \<^verbatim>\<open>setJobs(prev => ...)\<close> and \<^verbatim>\<open>setQueueStarts(prev => ...)\<close>
  are applied in the order they are issued; the model applies every update at once,
  so that a read of a ref is a read of the state.\<close>

record AppState =
  jobs :: "Job list"
  queueStarts :: "int list"

text \<open>\<^verbatim>\<open>startJob(id)\<close>, up to its first \<^verbatim>\<open>await\<close>. \<open>t1\<close> and \<open>t2\<close> are the two values
  of \<^verbatim>\<open>Date.now()\<close>, for \<^verbatim>\<open>startedAt\<close> and for the rate-limit record. The job is
  looked up in the snapshot \<^verbatim>\<open>jobsRef.current\<close>; when it is found the function goes
  on to the remote calls with the configuration of that job, which is the second
  component of the result, and when it is not the function returns.\<close>

definition startJob :: "string \<Rightarrow> int \<Rightarrow> int \<Rightarrow> AppState \<Rightarrow> AppState \<times> (string \<times> JobConfig) option" where
  "startJob i t1 t2 s =
     (let s' = \<lparr>jobs = updateJobStatus i PROCESSING
                          (no_updates\<lparr>u_startedAt := Some (Some t1)\<rparr>) (jobs s),
                queueStarts = queueStarts s @ [t2]\<rparr>
      in case find (\<lambda>j. jid j = i) (jobs s) of
           None \<Rightarrow> (s', None)
         | Some job \<Rightarrow> (s', Some (i, config job)))"

text \<open>\<^verbatim>\<open>processQueue()\<close>, one tick of the interval timer; \<open>now\<close> is its
  \<^verbatim>\<open>Date.now()\<close>.\<close>

definition processQueue :: "int \<Rightarrow> int \<Rightarrow> int \<Rightarrow> AppState \<Rightarrow> AppState \<times> (string \<times> JobConfig) option" where
  "processQueue now t1 t2 s =
     (let currentJobs = jobs s;
          currentStarts = queueStarts s;
          validStarts = filter (\<lambda>t. now - t < RATE_LIMIT_WINDOW_MS) currentStarts
      in if length validStarts \<noteq> length currentStarts
         then (s\<lparr>queueStarts := validStarts\<rparr>, None)
         else
           let processingJobs = filter (\<lambda>j. status j = PROCESSING) currentJobs
           in if length processingJobs \<ge> MAX_CONCURRENT_JOBS then (s, None)
              else if length validStarts \<ge> MAX_STARTS_PER_WINDOW then (s, None)
              else case find (\<lambda>j. status j = PENDING) currentJobs of
                     None \<Rightarrow> (s, None)
                   | Some candidate \<Rightarrow> startJob (jid candidate) t1 t2 s)"

section \<open>Remote execution (services/geminiService.ts)\<close>

text \<open>A thrown value, as far as the program reads it: its \<^verbatim>\<open>message\<close> property.
  \<^verbatim>\<open>new Error(m)\<close> has the message \<open>m\<close>.\<close>

datatype thrown = Thrown (message: "string option")

definition new_Error :: "string \<Rightarrow> thrown" where
  "new_Error m = Thrown (Some m)"

text \<open>Truthiness of an optional string, and \<^verbatim>\<open>v || d\<close>: \<^verbatim>\<open>undefined\<close> and the empty
  string are falsy.\<close>

definition truthy :: "string option \<Rightarrow> bool" where
  "truthy v = (case v of None \<Rightarrow> False | Some x \<Rightarrow> x \<noteq> [])"

definition or_else :: "string option \<Rightarrow> string \<Rightarrow> string" where
  "or_else v d = (case v of None \<Rightarrow> d | Some x \<Rightarrow> if x = [] then d else x)"

text \<open>The operation object of the service: \<^verbatim>\<open>operation.done\<close>, \<^verbatim>\<open>operation.error\<close>
  (\<open>Some m\<close> is an error object whose \<^verbatim>\<open>message\<close> is \<open>m\<close>) and the value of
  \<^verbatim>\<open>operation.response?.generatedVideos?.[0]?.video?.uri\<close>.\<close>

record Operation =
  op_done :: bool
  op_error :: "string option option"
  op_videoUri :: "string option"

datatype VideoRequest =
    ImageToVideo ModelType string string string Resolution AspectRatio
  | TextToVideo ModelType string Resolution AspectRatio

record FetchResponse =
  ok :: bool
  blobUrl :: "thrown + string"

text \<open>What the outside world answers during one execution of a job:
  \<^verbatim>\<open>process.env.API_KEY\<close>, the answer of \<^verbatim>\<open>ai.models.generateVideos\<close> to a request,
  the answers of the successive calls of \<^verbatim>\<open>ai.operations.getVideosOperation\<close>, and
  the answer of \<^verbatim>\<open>fetch\<close> to a URL, with in \<open>blobUrl\<close> the outcome of
  \<^verbatim>\<open>URL.createObjectURL(await response.blob())\<close>. \<open>Inl\<close> is a rejected promise.\<close>

record Remote =
  API_KEY :: "string option"
  generateVideos :: "VideoRequest \<Rightarrow> thrown + Operation"
  getVideosOperation :: "(thrown + Operation) list"
  fetch :: "string \<Rightarrow> thrown + FetchResponse"

text \<open>The polling loop \<^verbatim>\<open>while (!operation.done) { await delay(5000); operation = await
  ai.operations.getVideosOperation(...) }\<close> over the answers still to come. \<open>None\<close>:
  the answers are used up and the operation is not done, the loop is still waiting.\<close>

fun poll :: "Operation \<Rightarrow> (thrown + Operation) list \<Rightarrow> (thrown + Operation) option" where
  "poll operation [] = (if op_done operation then Some (Inr operation) else None)"
| "poll operation (r # rs) =
     (if op_done operation then Some (Inr operation)
      else case r of Inl e \<Rightarrow> Some (Inl e) | Inr operation' \<Rightarrow> poll operation' rs)"

text \<open>The request of \<^verbatim>\<open>generateVideoJob\<close>: image-to-video when the input type is
  \<^verbatim>\<open>IMAGE\<close> and \<^verbatim>\<open>imageBase64\<close> is truthy, text-to-video otherwise.\<close>

definition videoRequest :: "JobConfig \<Rightarrow> VideoRequest" where
  "videoRequest cfg =
     (case imageBase64 cfg of
        None \<Rightarrow> TextToVideo (model cfg) (prompt cfg) (resolution cfg) (aspectRatio cfg)
      | Some bytes \<Rightarrow>
          if inputType cfg = IMAGE \<and> bytes \<noteq> []
          then ImageToVideo (model cfg) (prompt cfg) bytes
                 (or_else (imageMimeType cfg) ''image/png'') (resolution cfg) (aspectRatio cfg)
          else TextToVideo (model cfg) (prompt cfg) (resolution cfg) (aspectRatio cfg))"

text \<open>The body of the \<^verbatim>\<open>try\<close> block of \<^verbatim>\<open>generateVideoJob\<close>: \<open>Inl\<close> is a throw inside
  it, \<open>Inr\<close> the returned URI, \<open>None\<close> a polling loop that has not ended.\<close>

definition generateVideoJob_try :: "JobConfig \<Rightarrow> Remote \<Rightarrow> (thrown + string) option" where
  "generateVideoJob_try cfg env =
     (case generateVideos env (videoRequest cfg) of
        Inl e \<Rightarrow> Some (Inl e)
      | Inr operation0 \<Rightarrow>
          (case poll operation0 (getVideosOperation env) of
             None \<Rightarrow> None
           | Some (Inl e) \<Rightarrow> Some (Inl e)
           | Some (Inr operation) \<Rightarrow>
               (case op_error operation of
                  Some m \<Rightarrow> Some (Inl (new_Error (or_else m ''Unknown generation error'')))
                | None \<Rightarrow>
                    (case op_videoUri operation of
                       None \<Rightarrow> Some (Inl (new_Error ''No video URI returned in response''))
                     | Some uri \<Rightarrow>
                         if uri = []
                         then Some (Inl (new_Error ''No video URI returned in response''))
                         else Some (Inr uri)))))"

text \<open>\<^verbatim>\<open>generateVideoJob(config)\<close>: the check of the API key, then the \<^verbatim>\<open>try\<close> block,
  whose \<^verbatim>\<open>catch\<close> throws a new error with the message of the one caught.\<close>

definition generateVideoJob :: "JobConfig \<Rightarrow> Remote \<Rightarrow> (thrown + string) option" where
  "generateVideoJob cfg env =
     (if \<not> truthy (API_KEY env)
      then Some (Inl (new_Error ''API Key not found. Please select a project.''))
      else case generateVideoJob_try cfg env of
             None \<Rightarrow> None
           | Some (Inl e) \<Rightarrow> Some (Inl (new_Error (or_else (message e) ''Failed to generate video'')))
           | Some (Inr uri) \<Rightarrow> Some (Inr uri))"

text \<open>\<^verbatim>\<open>fetchVideoBlob(uri)\<close>. An undefined key is the text \<^verbatim>\<open>undefined\<close> in the
  template literal.\<close>

definition fetchVideoBlob :: "string \<Rightarrow> Remote \<Rightarrow> thrown + string" where
  "fetchVideoBlob uri env =
     (let urlWithKey = uri @ ''&key='' @ (case API_KEY env of None \<Rightarrow> ''undefined'' | Some k \<Rightarrow> k)
      in case fetch env urlWithKey of
           Inl e \<Rightarrow> Inl e
         | Inr response \<Rightarrow>
             if \<not> ok response then Inl (new_Error ''Failed to download video file'')
             else blobUrl response)"

text \<open>The rest of \<^verbatim>\<open>startJob(id)\<close>. \<open>startJob_try\<close> is what the two awaited calls of
  its \<^verbatim>\<open>try\<close> block give: the URI and the blob URL, or the value thrown.
  \<open>startJob_settle\<close> is the state update that follows, in the \<^verbatim>\<open>try\<close> block or in
  the \<^verbatim>\<open>catch\<close>; \<open>now\<close> is the \<^verbatim>\<open>Date.now()\<close> of \<^verbatim>\<open>completedAt\<close>. \<open>None\<close>: the
  execution has not ended, no update is issued.\<close>

definition startJob_try :: "JobConfig \<Rightarrow> Remote \<Rightarrow> (thrown + string \<times> string) option" where
  "startJob_try cfg env =
     (case generateVideoJob cfg env of
        None \<Rightarrow> None
      | Some (Inl err) \<Rightarrow> Some (Inl err)
      | Some (Inr uri) \<Rightarrow>
          (case fetchVideoBlob uri env of
             Inl err \<Rightarrow> Some (Inl err)
           | Inr blob \<Rightarrow> Some (Inr (uri, blob))))"

definition startJob_settle :: "string \<Rightarrow> JobConfig \<Rightarrow> Remote \<Rightarrow> int \<Rightarrow> Job list \<Rightarrow> Job list option" where
  "startJob_settle i cfg env now prev =
     (case startJob_try cfg env of
        None \<Rightarrow> None
      | Some (Inr (uri, blob)) \<Rightarrow>
          Some (updateJobStatus i COMPLETED
                  (no_updates\<lparr>u_completedAt := Some (Some now), u_videoUri := Some (Some uri),
                     u_downloadUrl := Some (Some blob)\<rparr>) prev)
      | Some (Inl err) \<Rightarrow>
          Some (updateJobStatus i FAILED
                  (no_updates\<lparr>u_error := Some (Some (or_else (message err) ''Unknown error occurred''))\<rparr>)
                  prev))"

section \<open>The Retry button (components/JobRow.tsx)\<close>

text \<open>The row of a job has a Retry button only when the status of the job is
  \<^verbatim>\<open>FAILED\<close>; a click calls \<^verbatim>\<open>onRetry(job.id)\<close>. \<open>None\<close>: there is no button.\<close>

definition JobRow_retry :: "Job \<Rightarrow> string option" where
  "JobRow_retry job = (if status job = FAILED then Some (jid job) else None)"

section \<open>The running system\<close>

text \<open>The state of the application with the part of its environment that the queue
  depends on: \<open>inflight\<close> are the calls of \<^verbatim>\<open>startJob\<close> that wait for their remote
  execution (the job id and the configuration they captured), \<open>clock\<close> is the last
  value of \<^verbatim>\<open>Date.now()\<close> that a tick has read (\<open>now\<close>, or \<open>t2\<close> when it has started a
  job; no event depends on it), and \<open>startsLog\<close> is the history of all
  timestamps that \<^verbatim>\<open>startJob\<close> has appended to \<^verbatim>\<open>queueStarts\<close>, which pruning never
  shortens.\<close>

record Sys =
  app :: AppState
  inflight :: "(string \<times> JobConfig) list"
  clock :: int
  startsLog :: "int list"

definition init :: Sys where
  "init = \<lparr>app = \<lparr>jobs = [], queueStarts = []\<rparr>, inflight = [], clock = 0, startsLog = []\<rparr>"

text \<open>What can happen: the form submits a batch (\<^verbatim>\<open>addJobs\<close>), the timer ticks
  (\<^verbatim>\<open>processQueue\<close>), the user clicks on the Retry button of the \<open>k\<close>-th row, and
  the remote execution of a job ends (the second half of \<^verbatim>\<open>startJob\<close>).\<close>

datatype Event =
    AddJobs JobConfig int "nat \<Rightarrow> string" "nat \<Rightarrow> int"
  | Tick int int int
  | Retry nat
  | Settle string Remote int

text \<open>The events that the environment can produce in a state:
  \<^verbatim>\<open>crypto.randomUUID()\<close> returns identifiers that are new and different from each
  other; the timer can tick in every state, whatever \<^verbatim>\<open>Date.now()\<close> returns; a row
  exists for every job of the table; and an execution ends only if it was started
  and has not ended before.\<close>

fun enabled :: "Sys \<Rightarrow> Event \<Rightarrow> bool" where
  "enabled s (AddJobs cfg count uuid now) =
     (let ids = map uuid [0 ..< nat count]
      in distinct ids \<and> (\<forall>i \<in> set ids. i \<notin> set (map jid (jobs (app s)))))"
| "enabled s (Tick now t1 t2) = True"
| "enabled s (Retry k) = (k < length (jobs (app s)))"
| "enabled s (Settle i env now) =
     (case map_of (inflight s) i of
        None \<Rightarrow> False
      | Some cfg \<Rightarrow> startJob_try cfg env \<noteq> None)"

fun step :: "Sys \<Rightarrow> Event \<Rightarrow> Sys" where
  "step s (AddJobs cfg count uuid now) =
     s\<lparr>app := (app s)\<lparr>jobs := addJobs cfg count uuid now (jobs (app s))\<rparr>\<rparr>"
| "step s (Tick now t1 t2) =
     (case processQueue now t1 t2 (app s) of
        (a, None) \<Rightarrow> s\<lparr>app := a, clock := now\<rparr>
      | (a, Some started) \<Rightarrow>
          s\<lparr>app := a, inflight := inflight s @ [started], clock := t2,
            startsLog := startsLog s @ [t2]\<rparr>)"
| "step s (Retry k) =
     (case JobRow_retry (jobs (app s) ! k) of
        None \<Rightarrow> s
      | Some i \<Rightarrow> s\<lparr>app := (app s)\<lparr>jobs := handleRetry i (jobs (app s))\<rparr>\<rparr>)"
| "step s (Settle i env now) =
     (case map_of (inflight s) i of
        None \<Rightarrow> s
      | Some cfg \<Rightarrow>
          (case startJob_settle i cfg env now (jobs (app s)) of
             None \<Rightarrow> s
           | Some js \<Rightarrow>
               s\<lparr>app := (app s)\<lparr>jobs := js\<rparr>,
                 inflight := filter (\<lambda>x. fst x \<noteq> i) (inflight s)\<rparr>))"

inductive reaches :: "Sys \<Rightarrow> Sys \<Rightarrow> bool" where
  reaches_refl: "reaches s s"
| reaches_step: "reaches s s' \<Longrightarrow> enabled s' e \<Longrightarrow> reaches s (step s' e)"

definition reachable :: "Sys \<Rightarrow> bool" where
  "reachable s = reaches init s"

text \<open>A list of events can happen from a state, one after the other.\<close>

fun runnable :: "Sys \<Rightarrow> Event list \<Rightarrow> bool" where
  "runnable s [] = True"
| "runnable s (e # es) = (enabled s e \<and> runnable (step s e) es)"

text \<open>\<^verbatim>\<open>Date.now()\<close> is the wall clock, which can be set back. The clock is steady
  in a tick when the values that the tick reads do not decrease: \<open>now\<close> is not before
  the last value that the tick before it has read, and \<open>t1\<close> and \<open>t2\<close> follow \<open>now\<close> in
  this order. It is steady in a list of events when it is steady in every tick of
  the list.\<close>

fun clock_steady :: "Sys \<Rightarrow> Event \<Rightarrow> bool" where
  "clock_steady s (Tick now t1 t2) = (clock s \<le> now \<and> now \<le> t1 \<and> t1 \<le> t2)"
| "clock_steady s (AddJobs cfg count uuid now) = True"
| "clock_steady s (Retry k) = True"
| "clock_steady s (Settle i env now) = True"

fun steady :: "Sys \<Rightarrow> Event list \<Rightarrow> bool" where
  "steady s [] = True"
| "steady s (e # es) = (clock_steady s e \<and> steady (step s e) es)"

text \<open>The number of jobs that are being processed, and the number of timestamps of a
  list that lie in the window of \<^verbatim>\<open>RATE_LIMIT_WINDOW_MS\<close> milliseconds that ends at
  \<open>T\<close>: those with \<open>t \<le> T\<close> and \<open>T - t < RATE_LIMIT_WINDOW_MS\<close>, the test of
  \<^verbatim>\<open>processQueue\<close>.\<close>

definition processingCount :: "Job list \<Rightarrow> nat" where
  "processingCount js = length (filter (\<lambda>j. status j = PROCESSING) js)"

definition inWindow :: "int \<Rightarrow> int list \<Rightarrow> nat" where
  "inWindow T ts = length (filter (\<lambda>t. t \<le> T \<and> T - t < RATE_LIMIT_WINDOW_MS) ts)"

text \<open>The number of jobs that are pending in the job list before a tick and
  processing in the job list after it, position by position.\<close>

definition pendingToProcessing :: "Job list \<Rightarrow> Job list \<Rightarrow> nat" where
  "pendingToProcessing before after =
     length (filter (\<lambda>(j, j'). status j = PENDING \<and> status j' = PROCESSING) (zip before after))"

text \<open>The invariant of the data model on one job: no error and no result while it is
  pending or processing, a result and no error when it is completed, an error and
  no result when it has failed.\<close>

definition job_ok :: "Job \<Rightarrow> bool" where
  "job_ok j =
     (case status j of
        PENDING \<Rightarrow> error j = None \<and> videoUri j = None \<and> downloadUrl j = None
      | PROCESSING \<Rightarrow> error j = None \<and> videoUri j = None \<and> downloadUrl j = None
      | COMPLETED \<Rightarrow> error j = None \<and> videoUri j \<noteq> None \<and> downloadUrl j \<noteq> None
      | FAILED \<Rightarrow> error j \<noteq> None \<and> videoUri j = None \<and> downloadUrl j = None)"

text \<open>The invariant of the job store and of the executions that are running: the
  ids of the jobs are different from each other, no job has two executions running,
  every running execution belongs to a job of the list, that job is processing, and
  every job satisfies \<open>job_ok\<close>.\<close>

definition inflight_ok :: "Sys \<Rightarrow> bool" where
  "inflight_ok s =
     (distinct (map fst (inflight s))
      \<and> (\<forall>x \<in> set (inflight s).
            fst x \<in> set (map jid (jobs (app s)))
          \<and> (\<forall>j \<in> set (jobs (app s)). jid j = fst x \<longrightarrow> status j = PROCESSING)))"

definition store_inv :: "Sys \<Rightarrow> bool" where
  "store_inv s =
     (distinct (map jid (jobs (app s))) \<and> inflight_ok s \<and> (\<forall>j \<in> set (jobs (app s)). job_ok j))"

text \<open>The invariant of the rate limiter while the clock is steady: \<^verbatim>\<open>queueStarts\<close> never has more than
  \<^verbatim>\<open>MAX_STARTS_PER_WINDOW\<close> entries, no window holds more than that many recorded
  starts, and in a window that ends at the time of the last tick or later, every
  recorded start is still in \<^verbatim>\<open>queueStarts\<close>.\<close>

definition rate_inv :: "Sys \<Rightarrow> bool" where
  "rate_inv s =
     (length (queueStarts (app s)) \<le> MAX_STARTS_PER_WINDOW
      \<and> (\<forall>T. inWindow T (startsLog s) \<le> MAX_STARTS_PER_WINDOW)
      \<and> (\<forall>T \<ge> clock s. length (filter (\<lambda>t. T - t < RATE_LIMIT_WINDOW_MS) (startsLog s))
                       \<le> length (filter (\<lambda>t. T - t < RATE_LIMIT_WINDOW_MS) (queueStarts (app s)))))"

section \<open>Example data\<close>

definition exConfig :: JobConfig where
  "exConfig = \<lparr>prompt = ''a cat'', inputType = TEXT, model = VEO_FAST,
      aspectRatio = RATIO_16_9, resolution = RES_720P, imageBase64 = None,
      imageMimeType = Some ''image/png''\<rparr>"

definition failedJob :: Job where
  "failedJob = (newJob exConfig ''j1'' 1000)
      \<lparr>status := FAILED, error := Some ''Unknown generation error'', startedAt := Some 2000\<rparr>"

definition exJobs :: "Job list" where
  "exJobs = [failedJob, newJob exConfig ''j2'' 1100, newJob exConfig ''j3'' 1200]"

definition exApp :: AppState where
  "exApp = \<lparr>jobs = exJobs, queueStarts = [5000]\<rparr>"

definition exProcessing :: "Job list" where
  "exProcessing = [(newJob exConfig ''j4'' 1300)\<lparr>status := PROCESSING, startedAt := Some 2000\<rparr>]"

definition exOperation :: Operation where
  "exOperation = \<lparr>op_done = True, op_error = Some (Some ''Unknown generation error''),
     op_videoUri = None\<rparr>"

definition exRemote :: Remote where
  "exRemote = \<lparr>API_KEY = Some ''key'',
     generateVideos = (\<lambda>r. Inr \<lparr>op_done = False, op_error = None, op_videoUri = None\<rparr>),
     getVideosOperation = [Inr exOperation],
     fetch = (\<lambda>u. Inl (Thrown None))\<rparr>"

text \<open>A run of the system: two jobs are added, a tick starts the first and its
  execution succeeds (\<open>run3\<close>); the next tick starts the second (\<open>run4\<close>).\<close>

definition exRemoteOk :: Remote where
  "exRemoteOk = \<lparr>API_KEY = Some ''key'',
     generateVideos = (\<lambda>r. Inr \<lparr>op_done = True, op_error = None, op_videoUri = Some ''https://v/1?alt=media''\<rparr>),
     getVideosOperation = [],
     fetch = (\<lambda>u. Inr \<lparr>ok = True, blobUrl = Inr ''blob:1''\<rparr>)\<rparr>"

definition exUuid :: "nat \<Rightarrow> string" where
  "exUuid k = (if k = 0 then ''u0'' else ''u1'')"

definition exEvents :: "Event list" where
  "exEvents = [AddJobs exConfig 2 exUuid (\<lambda>k. 1000), Tick 2000 2001 2002,
     Settle ''u0'' exRemoteOk 9000]"

definition run3 :: Sys where
  "run3 = foldl step init exEvents"

definition run4 :: Sys where
  "run4 = foldl step run3 [Tick 10000 10001 10002]"

text \<open>A second run: five jobs are added and four ticks, one second apart, start four of
  them.\<close>

definition exUuid5 :: "nat \<Rightarrow> string" where
  "exUuid5 k = (if k = 0 then ''a'' else if k = 1 then ''b'' else if k = 2 then ''c''
     else if k = 3 then ''d'' else ''e'')"

definition exEvents5 :: "Event list" where
  "exEvents5 = [AddJobs exConfig 5 exUuid5 (\<lambda>k. 500), Tick 1000 1001 1002,
     Tick 2000 2001 2002, Tick 3000 3001 3002, Tick 4000 4001 4002]"

definition busy :: Sys where
  "busy = foldl step init exEvents5"

text \<open>Then the execution of the first job ends: three jobs are processing, one is
  pending, and \<^verbatim>\<open>queueStarts\<close> holds four timestamps.\<close>

definition busy' :: Sys where
  "busy' = foldl step busy [Settle ''a'' exRemoteOk 4500]"

text \<open>A third run, in which the clock is set back: four jobs are started between
  100 and 103 seconds and the first of them ends; a tick at 160.002 seconds prunes the
  oldest timestamp; the next tick reads 150 seconds, ten seconds less, and starts
  the fifth job.\<close>

definition exEventsBack :: "Event list" where
  "exEventsBack = [AddJobs exConfig 5 exUuid5 (\<lambda>k. 500), Tick 100000 100001 100002,
     Tick 101000 101001 101002, Tick 102000 102001 102002, Tick 103000 103001 103002,
     Settle ''a'' exRemoteOk 104000, Tick 160002 160002 160002, Tick 150000 150001 150002]"

definition setBack :: Sys where
  "setBack = foldl step init exEventsBack"

section \<open>The job store\<close>

lemma length_updateJobStatus [simp]:
  "length (updateJobStatus i st u js) = length js"
  by (simp add: updateJobStatus_def)

lemma nth_updateJobStatus:
  "k < length js \<Longrightarrow>
   updateJobStatus i st u js ! k =
     (if jid (js ! k) = i then merge_job (js ! k) st u else js ! k)"
  by (simp add: updateJobStatus_def)

lemma jid_merge_job [simp]: "jid (merge_job j st u) = jid j"
  by (simp add: merge_job_def)

lemma config_merge_job [simp]: "config (merge_job j st u) = config j"
  by (simp add: merge_job_def)

lemma status_merge_job [simp]: "status (merge_job j st u) = st"
  by (simp add: merge_job_def)

lemma map_jid_updateJobStatus [simp]:
  "map jid (updateJobStatus i st u js) = map jid js"
  by (simp add: updateJobStatus_def)

lemma updateJobStatus_distinct:
  assumes "distinct (map jid js)" "k < length js"
  shows "updateJobStatus (jid (js ! k)) st u js = js[k := merge_job (js ! k) st u]"
proof (rule nth_equalityI)
  show "length (updateJobStatus (jid (js ! k)) st u js) = length (js[k := merge_job (js ! k) st u])"
    by simp
next
  fix m assume "m < length (updateJobStatus (jid (js ! k)) st u js)"
  then have m: "m < length js" by simp
  have "jid (js ! m) = jid (js ! k) \<longleftrightarrow> m = k"
    using assms m by (metis distinct_conv_nth length_map nth_map)
  then show "updateJobStatus (jid (js ! k)) st u js ! m = js[k := merge_job (js ! k) st u] ! m"
    using m assms(2) by (auto simp: nth_updateJobStatus)
qed

lemma find_jid_of_member:
  "j \<in> set js \<Longrightarrow> find (\<lambda>x. jid x = jid j) js \<noteq> None"
  by (auto simp: find_None_iff)

lemma processQueue_cases:
  obtains
    (prune) "length (filter (\<lambda>t. now - t < RATE_LIMIT_WINDOW_MS) (queueStarts s)) \<noteq> length (queueStarts s)"
       "processQueue now t1 t2 s = (s\<lparr>queueStarts := filter (\<lambda>t. now - t < RATE_LIMIT_WINDOW_MS) (queueStarts s)\<rparr>, None)"
  | (idle) "filter (\<lambda>t. now - t < RATE_LIMIT_WINDOW_MS) (queueStarts s) = queueStarts s"
       "processQueue now t1 t2 s = (s, None)"
  | (admit) k cfg where
       "filter (\<lambda>t. now - t < RATE_LIMIT_WINDOW_MS) (queueStarts s) = queueStarts s"
       "processingCount (jobs s) < MAX_CONCURRENT_JOBS"
       "length (queueStarts s) < MAX_STARTS_PER_WINDOW"
       "k < length (jobs s)" "status (jobs s ! k) = PENDING"
       "\<forall>m<k. status (jobs s ! m) \<noteq> PENDING"
       "processQueue now t1 t2 s =
          (\<lparr>jobs = updateJobStatus (jid (jobs s ! k)) PROCESSING
                     (no_updates\<lparr>u_startedAt := Some (Some t1)\<rparr>) (jobs s),
            queueStarts = queueStarts s @ [t2]\<rparr>,
           Some (jid (jobs s ! k), cfg))"
       "distinct (map jid (jobs s)) \<Longrightarrow> cfg = config (jobs s ! k)"
proof -
  let ?valid = "filter (\<lambda>t. now - t < RATE_LIMIT_WINDOW_MS) (queueStarts s)"
  show thesis
  proof (cases "length ?valid \<noteq> length (queueStarts s)")
    case True
    then show thesis using prune by (simp add: processQueue_def Let_def)
  next
    case False
    then have same: "?valid = queueStarts s"
      by (metis filter_True length_filter_less linorder_neq_iff filter_id_conv)
    show thesis
    proof (cases "find (\<lambda>j. status j = PENDING) (jobs s)")
      case None
      then show thesis using idle same by (simp add: processQueue_def Let_def)
    next
      case (Some c)
      then obtain k where k: "k < length (jobs s)" "status (jobs s ! k) = PENDING"
        "c = jobs s ! k" "\<forall>m<k. status (jobs s ! m) \<noteq> PENDING"
        by (auto simp: find_Some_iff)
      show thesis
      proof (cases "processingCount (jobs s) < MAX_CONCURRENT_JOBS \<and> length (queueStarts s) < MAX_STARTS_PER_WINDOW")
        case False
        then show thesis using idle same Some
          by (auto simp: processQueue_def processingCount_def Let_def)
      next
        case True
        have "jobs s ! k \<in> set (jobs s)" using k(1) by simp
        then obtain c' where c': "find (\<lambda>x. jid x = jid (jobs s ! k)) (jobs s) = Some c'"
          using find_jid_of_member by fastforce
        have cfg: "config c' = config (jobs s ! k)" if "distinct (map jid (jobs s))"
        proof -
          from c' obtain m where m: "m < length (jobs s)" "c' = jobs s ! m"
            "jid (jobs s ! m) = jid (jobs s ! k)"
            by (auto simp: find_Some_iff)
          then have "m = k"
            using that k(1) by (metis distinct_conv_nth length_map nth_map)
          then show ?thesis using m by simp
        qed
        have "processQueue now t1 t2 s =
          (\<lparr>jobs = updateJobStatus (jid (jobs s ! k)) PROCESSING
                     (no_updates\<lparr>u_startedAt := Some (Some t1)\<rparr>) (jobs s),
            queueStarts = queueStarts s @ [t2]\<rparr>,
           Some (jid (jobs s ! k), config c'))"
          using True same Some k(3) c'
          by (simp add: processQueue_def processingCount_def Let_def startJob_def)
        then show thesis using admit [OF same _ _ k(1,2,4)] True cfg by blast
      qed
    qed
  qed
qed

lemma processQueue_no_start:
  assumes "snd (processQueue now t1 t2 s) = None"
  shows "jobs (fst (processQueue now t1 t2 s)) = jobs s
       \<and> set (queueStarts (fst (processQueue now t1 t2 s))) \<subseteq> set (queueStarts s)"
proof (rule processQueue_cases [where now = now and s = s and ?t1.0 = t1 and ?t2.0 = t2], goal_cases)
  case 1
  then show ?case by simp
next
  case 2
  then show ?case by simp
next
  case (3 k cfg)
  then show ?case using assms by simp
qed

text \<open>C10. A batch count that is zero or negative creates no job: the job list after
  \<open>addJobs\<close> is the job list before it.\<close>

theorem addJobs_nonpositive_count:
  "count \<le> 0 \<Longrightarrow> addJobs cfg count uuid now js = js"
  by (simp add: addJobs_def)

theorem addJobs_nonpositive_count_witness:
  "(-2::int) \<le> 0 \<and> addJobs exConfig (-2) (\<lambda>k. ''x'') (\<lambda>k. 5) [failedJob] = [failedJob]"
  using addJobs_nonpositive_count [of "-2" exConfig "\<lambda>k. ''x''" "\<lambda>k. 5" "[failedJob]"]
  by simp

text \<open>C8. On a job whose status is \<open>FAILED\<close> the Retry button exists, and
  \<open>handleRetry\<close> with the id of the job sets its status to \<open>PENDING\<close>, clears its
  error and keeps its configuration; a second \<open>handleRetry\<close> changes nothing more.\<close>

theorem handleRetry_failed_job:
  assumes "k < length js" and "status (js ! k) = FAILED" and "jid (js ! k) = i"
  shows "JobRow_retry (js ! k) = Some i
       \<and> status (handleRetry i js ! k) = PENDING
       \<and> error (handleRetry i js ! k) = None
       \<and> config (handleRetry i js ! k) = config (js ! k)
       \<and> handleRetry i (handleRetry i js) = handleRetry i js"
proof -
  have "merge_job (merge_job j PENDING (no_updates\<lparr>u_error := Some None\<rparr>)) PENDING
          (no_updates\<lparr>u_error := Some None\<rparr>)
        = merge_job j PENDING (no_updates\<lparr>u_error := Some None\<rparr>)" for j
    by (simp add: merge_job_def no_updates_def spread_def)
  then have "handleRetry i (handleRetry i js) = handleRetry i js"
    by (simp add: handleRetry_def updateJobStatus_def)
  moreover have "error (handleRetry i js ! k) = None"
    using assms by (simp add: handleRetry_def nth_updateJobStatus merge_job_def spread_def)
  ultimately show ?thesis
    using assms by (simp add: handleRetry_def nth_updateJobStatus JobRow_retry_def)
qed

theorem handleRetry_failed_job_witness:
  "0 < length [failedJob] \<and> status ([failedJob] ! 0) = FAILED \<and> jid ([failedJob] ! 0) = ''j1''
   \<and> JobRow_retry ([failedJob] ! 0) = Some ''j1''
   \<and> status (handleRetry ''j1'' [failedJob] ! 0) = PENDING
   \<and> error (handleRetry ''j1'' [failedJob] ! 0) = None
   \<and> config (handleRetry ''j1'' [failedJob] ! 0) = config failedJob
   \<and> handleRetry ''j1'' (handleRetry ''j1'' [failedJob]) = handleRetry ''j1'' [failedJob]"
  using handleRetry_failed_job [of 0 "[failedJob]" "''j1''"]
  by (simp add: failedJob_def newJob_def)

section \<open>One tick\<close>

text \<open>C4. When pruning removes a timestamp, the tick writes the pruned list back,
  leaves the jobs as they are and starts no job.\<close>

theorem processQueue_prune_defers:
  assumes "length (filter (\<lambda>t. now - t < RATE_LIMIT_WINDOW_MS) (queueStarts s)) < length (queueStarts s)"
  shows "processQueue now t1 t2 s =
           (s\<lparr>queueStarts := filter (\<lambda>t. now - t < RATE_LIMIT_WINDOW_MS) (queueStarts s)\<rparr>, None)
       \<and> jobs (fst (processQueue now t1 t2 s)) = jobs s"
  using assms by (simp add: processQueue_def Let_def)

theorem processQueue_prune_defers_witness:
  "length (filter (\<lambda>t. 70000 - t < RATE_LIMIT_WINDOW_MS) [5000, 20000]) < length [5000, 20000 :: int]
   \<and> processQueue 70000 70001 70002 \<lparr>jobs = [newJob exConfig ''j2'' 100], queueStarts = [5000, 20000]\<rparr>
       = (\<lparr>jobs = [newJob exConfig ''j2'' 100], queueStarts = [20000]\<rparr>, None)"
  using processQueue_prune_defers [of 70000 "\<lparr>jobs = [newJob exConfig ''j2'' 100], queueStarts = [5000, 20000]\<rparr>" 70001 70002]
  by (simp add: RATE_LIMIT_WINDOW_MS_def)

lemma pendingToProcessing_same [simp]: "pendingToProcessing js js = 0"
  by (auto simp: pendingToProcessing_def filter_empty_conv in_set_zip)

lemma pendingToProcessing_list_update:
  "pendingToProcessing js (js[k := x]) \<le> 1"
proof -
  let ?P = "\<lambda>(j, j'). status j = PENDING \<and> status j' = PROCESSING"
  let ?zs = "zip js (js[k := x])"
  have "i = k" if "i < length js" "status (js ! i) = PENDING" "status (js[k := x] ! i) = PROCESSING" for i
  proof (rule ccontr)
    assume "i \<noteq> k"
    then have "js[k := x] ! i = js ! i" by simp
    then show False using that by simp
  qed
  then have "{i. i < length ?zs \<and> ?P (?zs ! i)} \<subseteq> {k}"
    by auto
  then have "card {i. i < length ?zs \<and> ?P (?zs ! i)} \<le> card {k}"
    by (intro card_mono) auto
  then show ?thesis
    by (simp add: pendingToProcessing_def length_filter_conv_card)
qed

text \<open>C3. One tick moves at most one job from \<open>PENDING\<close> to \<open>PROCESSING\<close> (in a job
  list whose ids are different from each other), and it keeps the length of the list.\<close>

theorem processQueue_admits_at_most_one:
  assumes "distinct (map jid (jobs s))"
  shows "length (jobs (fst (processQueue now t1 t2 s))) = length (jobs s)
       \<and> pendingToProcessing (jobs s) (jobs (fst (processQueue now t1 t2 s))) \<le> 1"
proof (rule processQueue_cases [where now = now and s = s and ?t1.0 = t1 and ?t2.0 = t2], goal_cases)
  case 1
  then show ?case by simp
next
  case 2
  then show ?case by simp
next
  case admit: (3 k cfg)
  then show ?case
    using assms pendingToProcessing_list_update [of "jobs s" k]
    by (simp add: updateJobStatus_distinct)
qed

theorem processQueue_admits_at_most_one_witness:
  "distinct (map jid (jobs exApp))
   \<and> length (jobs (fst (processQueue 6000 6001 6002 exApp))) = length (jobs exApp)
   \<and> pendingToProcessing (jobs exApp) (jobs (fst (processQueue 6000 6001 6002 exApp))) \<le> 1"
proof -
  have h: "distinct (map jid (jobs exApp))"
    by (simp add: exApp_def exJobs_def failedJob_def newJob_def)
  from processQueue_admits_at_most_one [OF h, of 6000 6001 6002] h show ?thesis
    by blast
qed

text \<open>C5. When no job is pending a tick changes no job and starts none. When a tick
  changes the job list or starts a job, the job it starts is the first pending one of
  the list: every job before it is not pending, it alone is changed, to \<open>PROCESSING\<close>
  with \<open>startedAt\<close> set, and its execution is the one launched.\<close>

theorem processQueue_admits_first_pending:
  assumes "distinct (map jid (jobs s))"
  shows "(find (\<lambda>j. status j = PENDING) (jobs s) = None \<longrightarrow>
            jobs (fst (processQueue now t1 t2 s)) = jobs s \<and> snd (processQueue now t1 t2 s) = None)
       \<and> (jobs (fst (processQueue now t1 t2 s)) \<noteq> jobs s \<or> snd (processQueue now t1 t2 s) \<noteq> None \<longrightarrow>
            (\<exists>k<length (jobs s).
                status (jobs s ! k) = PENDING
              \<and> (\<forall>m<k. status (jobs s ! m) \<noteq> PENDING)
              \<and> jobs (fst (processQueue now t1 t2 s)) =
                  (jobs s)[k := (jobs s ! k)\<lparr>status := PROCESSING, startedAt := Some t1\<rparr>]
              \<and> snd (processQueue now t1 t2 s) = Some (jid (jobs s ! k), config (jobs s ! k))))"
proof (rule processQueue_cases [where now = now and s = s and ?t1.0 = t1 and ?t2.0 = t2], goal_cases)
  case 1
  then show ?case by simp
next
  case 2
  then show ?case by simp
next
  case admit: (3 k cfg)
  have upd: "merge_job j PROCESSING (no_updates\<lparr>u_startedAt := Some (Some t1)\<rparr>)
        = j\<lparr>status := PROCESSING, startedAt := Some t1\<rparr>" for j
    by (simp add: merge_job_def no_updates_def spread_def)
  have "jobs s ! k \<in> set (jobs s)"
    using admit(4) by simp
  then have "find (\<lambda>j. status j = PENDING) (jobs s) \<noteq> None"
    using admit(5) unfolding find_None_iff by blast
  moreover have "jobs (fst (processQueue now t1 t2 s)) =
      (jobs s)[k := (jobs s ! k)\<lparr>status := PROCESSING, startedAt := Some t1\<rparr>]"
    using admit(4,7) assms by (simp add: updateJobStatus_distinct upd)
  moreover have "snd (processQueue now t1 t2 s) = Some (jid (jobs s ! k), config (jobs s ! k))"
    using admit(7,8) assms by simp
  ultimately show ?case using admit(4,5,6) by blast
qed

theorem processQueue_admits_first_pending_witness:
  "distinct (map jid (jobs exApp))
   \<and> jobs (fst (processQueue 6000 6001 6002 exApp)) \<noteq> jobs exApp
   \<and> (\<exists>k<length (jobs exApp).
          status (jobs exApp ! k) = PENDING
        \<and> (\<forall>m<k. status (jobs exApp ! m) \<noteq> PENDING)
        \<and> jobs (fst (processQueue 6000 6001 6002 exApp)) =
            (jobs exApp)[k := (jobs exApp ! k)\<lparr>status := PROCESSING, startedAt := Some 6001\<rparr>]
        \<and> snd (processQueue 6000 6001 6002 exApp) = Some (jid (jobs exApp ! k), config (jobs exApp ! k)))"
proof -
  have h: "distinct (map jid (jobs exApp))"
    by (simp add: exApp_def exJobs_def failedJob_def newJob_def)
  have c: "jobs (fst (processQueue 6000 6001 6002 exApp)) \<noteq> jobs exApp"
    by (simp add: processQueue_def startJob_def updateJobStatus_def merge_job_def exApp_def
        exJobs_def failedJob_def newJob_def RATE_LIMIT_WINDOW_MS_def MAX_CONCURRENT_JOBS_def
        MAX_STARTS_PER_WINDOW_def Let_def)
  from processQueue_admits_first_pending [OF h, of 6000 6001 6002] h c show ?thesis
    by blast
qed

section \<open>The end of an execution\<close>

lemma or_else_nonempty: "d \<noteq> [] \<Longrightarrow> or_else v d \<noteq> []"
  by (auto simp: or_else_def split: option.splits)

text \<open>C9. When the awaited calls of \<open>startJob\<close> throw a value, the job becomes \<open>FAILED\<close>
  and its error is the message of that value, or \<open>Unknown error occurred\<close> when the
  message is missing or empty; it is never empty. When the operation of the remote
  service ends with an error object, the value thrown carries the message of that
  object, or \<open>Unknown generation error\<close> when that message is missing or empty.\<close>

theorem startJob_settle_failure:
  assumes "k < length js" and "jid (js ! k) = i"
  shows "(startJob_try cfg env = Some (Inl err) \<longrightarrow>
            (\<exists>js'. startJob_settle i cfg env now js = Some js'
                \<and> status (js' ! k) = FAILED
                \<and> error (js' ! k) = Some (or_else (message err) ''Unknown error occurred'')
                \<and> (\<forall>m. message err = Some m \<and> m \<noteq> [] \<longrightarrow> error (js' ! k) = Some m)
                \<and> error (js' ! k) \<noteq> None \<and> error (js' ! k) \<noteq> Some []))
       \<and> (truthy (API_KEY env) \<and> generateVideos env (videoRequest cfg) = Inr operation0
            \<and> poll operation0 (getVideosOperation env) = Some (Inr operation)
            \<and> op_error operation = Some em \<longrightarrow>
            startJob_try cfg env = Some (Inl (new_Error (or_else em ''Unknown generation error'')))
            \<and> (\<forall>m. em = Some m \<and> m \<noteq> [] \<longrightarrow> startJob_try cfg env = Some (Inl (new_Error m))))"
proof (intro conjI impI)
  assume t: "startJob_try cfg env = Some (Inl err)"
  let ?msg = "or_else (message err) ''Unknown error occurred''"
  let ?js' = "updateJobStatus i FAILED (no_updates\<lparr>u_error := Some (Some ?msg)\<rparr>) js"
  have s: "startJob_settle i cfg env now js = Some ?js'"
    using t by (simp add: startJob_settle_def)
  have e: "error (?js' ! k) = Some ?msg"
    using assms by (simp add: nth_updateJobStatus merge_job_def spread_def)
  have st: "status (?js' ! k) = FAILED"
    using assms by (simp add: nth_updateJobStatus)
  have ne: "?msg \<noteq> []" by (rule or_else_nonempty) simp
  have m: "\<forall>m. message err = Some m \<and> m \<noteq> [] \<longrightarrow> error (?js' ! k) = Some m"
    using e by (auto simp: or_else_def)
  show "\<exists>js'. startJob_settle i cfg env now js = Some js'
                \<and> status (js' ! k) = FAILED
                \<and> error (js' ! k) = Some (or_else (message err) ''Unknown error occurred'')
                \<and> (\<forall>m. message err = Some m \<and> m \<noteq> [] \<longrightarrow> error (js' ! k) = Some m)
                \<and> error (js' ! k) \<noteq> None \<and> error (js' ! k) \<noteq> Some []"
    using s e st ne m by auto
next
  assume a: "truthy (API_KEY env) \<and> generateVideos env (videoRequest cfg) = Inr operation0
            \<and> poll operation0 (getVideosOperation env) = Some (Inr operation)
            \<and> op_error operation = Some em"
  have ne: "or_else em ''Unknown generation error'' \<noteq> []" by (rule or_else_nonempty) simp
  have "generateVideoJob_try cfg env = Some (Inl (new_Error (or_else em ''Unknown generation error'')))"
    using a by (simp add: generateVideoJob_try_def)
  then have "generateVideoJob cfg env = Some (Inl (new_Error (or_else em ''Unknown generation error'')))"
    using a ne by (simp add: generateVideoJob_def new_Error_def or_else_def)
  then show r: "startJob_try cfg env = Some (Inl (new_Error (or_else em ''Unknown generation error'')))"
    by (simp add: startJob_try_def)
  show "\<forall>m. em = Some m \<and> m \<noteq> [] \<longrightarrow> startJob_try cfg env = Some (Inl (new_Error m))"
    using r by (auto simp: or_else_def)
qed

theorem startJob_settle_failure_witness:
  "0 < length exProcessing \<and> jid (exProcessing ! 0) = ''j4''
   \<and> startJob_try exConfig exRemote = Some (Inl (new_Error ''Unknown generation error''))
   \<and> (\<exists>js'. startJob_settle ''j4'' exConfig exRemote 9000 exProcessing = Some js'
         \<and> status (js' ! 0) = FAILED \<and> error (js' ! 0) = Some ''Unknown generation error'')"
proof -
  have h: "0 < length exProcessing" "jid (exProcessing ! 0) = ''j4''"
    by (simp_all add: exProcessing_def newJob_def)
  have r: "truthy (API_KEY exRemote)
      \<and> generateVideos exRemote (videoRequest exConfig) = Inr \<lparr>op_done = False, op_error = None, op_videoUri = None\<rparr>
      \<and> poll \<lparr>op_done = False, op_error = None, op_videoUri = None\<rparr> (getVideosOperation exRemote) = Some (Inr exOperation)
      \<and> op_error exOperation = Some (Some ''Unknown generation error'')"
    by (simp add: exRemote_def exOperation_def truthy_def)
  note t = startJob_settle_failure [OF h, of exConfig exRemote "new_Error ''Unknown generation error''" 9000
      "\<lparr>op_done = False, op_error = None, op_videoUri = None\<rparr>" exOperation "Some ''Unknown generation error''"]
  from t r have 1: "startJob_try exConfig exRemote = Some (Inl (new_Error ''Unknown generation error''))"
    by blast
  with t have "\<exists>js'. startJob_settle ''j4'' exConfig exRemote 9000 exProcessing = Some js'
         \<and> status (js' ! 0) = FAILED
         \<and> (\<forall>m. message (new_Error ''Unknown generation error'') = Some m \<and> m \<noteq> [] \<longrightarrow> error (js' ! 0) = Some m)"
    by blast
  then have "\<exists>js'. startJob_settle ''j4'' exConfig exRemote 9000 exProcessing = Some js'
         \<and> status (js' ! 0) = FAILED \<and> error (js' ! 0) = Some ''Unknown generation error''"
    by (simp add: new_Error_def)
  with h 1 show ?thesis by blast
qed

section \<open>The invariant of the job store\<close>

lemma store_inv_init: "store_inv init"
  by (simp add: store_inv_def inflight_ok_def init_def)

lemma same_jid_same_job:
  "distinct (map jid js) \<Longrightarrow> a \<in> set js \<Longrightarrow> b \<in> set js \<Longrightarrow> jid a = jid b \<Longrightarrow> a = b"
  by (meson distinct_map inj_onD)

lemma set_updateJobStatus:
  assumes "distinct (map jid js)" "c \<in> set js"
  shows "set (updateJobStatus (jid c) st u js) = insert (merge_job c st u) (set js - {c})"
proof -
  have "\<And>j. j \<in> set js \<Longrightarrow> jid j = jid c \<longleftrightarrow> j = c"
    using assms same_jid_same_job by blast
  then show ?thesis
    using assms(2) by (auto simp: updateJobStatus_def)
qed

lemma store_inv_update:
  assumes inv: "store_inv s" and c: "c \<in> set (jobs (app s))"
    and ok: "job_ok (merge_job c st u)"
    and fl: "distinct (map fst fl')"
      "\<forall>x \<in> set fl'. (x \<in> set (inflight s) \<and> fst x \<noteq> jid c) \<or> (fst x = jid c \<and> st = PROCESSING)"
  shows "store_inv (s\<lparr>app := (app s)\<lparr>jobs := updateJobStatus (jid c) st u (jobs (app s))\<rparr>, inflight := fl'\<rparr>)"
proof -
  let ?js = "jobs (app s)"
  let ?js' = "updateJobStatus (jid c) st u ?js"
  have d: "distinct (map jid ?js)" using inv by (simp add: store_inv_def)
  have set': "set ?js' = insert (merge_job c st u) (set ?js - {c})"
    using d c by (rule set_updateJobStatus)
  have ok': "\<forall>j \<in> set ?js'. job_ok j"
    using inv ok by (auto simp: set' store_inv_def)
  have "fst x \<in> set (map jid ?js') \<and> (\<forall>j \<in> set ?js'. jid j = fst x \<longrightarrow> status j = PROCESSING)"
    if x: "x \<in> set fl'" for x
  proof (cases "fst x = jid c")
    case True
    then have st: "st = PROCESSING" using fl(2) x by auto
    have "\<And>j. j \<in> set ?js \<Longrightarrow> jid j = jid c \<Longrightarrow> j = c"
      using d c same_jid_same_job by blast
    then have "\<forall>j \<in> set ?js'. jid j = jid c \<longrightarrow> status j = st"
      unfolding set' by auto
    moreover have "jid c \<in> set (map jid ?js')"
      using c by simp
    ultimately show ?thesis using True st by simp
  next
    case False
    then have "x \<in> set (inflight s)" using fl(2) x by auto
    then have "fst x \<in> set (map jid ?js)" "\<forall>j \<in> set ?js. jid j = fst x \<longrightarrow> status j = PROCESSING"
      using inv by (auto simp: store_inv_def inflight_ok_def)
    then show ?thesis using False by (auto simp: set')
  qed
  then show ?thesis
    using d ok' fl(1) by (simp add: store_inv_def inflight_ok_def)
qed

lemma store_inv_cong:
  "jobs (app s') = jobs (app s) \<Longrightarrow> inflight s' = inflight s \<Longrightarrow> store_inv s' = store_inv s"
  by (simp add: store_inv_def inflight_ok_def)

lemma inflight_not_other_status:
  assumes "store_inv s" "c \<in> set (jobs (app s))" "status c \<noteq> PROCESSING" "x \<in> set (inflight s)"
  shows "fst x \<noteq> jid c"
  using assms by (auto simp: store_inv_def inflight_ok_def)

lemma store_inv_AddJobs:
  assumes "store_inv s" "enabled s (AddJobs cfg count uuid now)"
  shows "store_inv (step s (AddJobs cfg count uuid now))"
proof -
  let ?new = "map (\<lambda>k. newJob cfg (uuid k) (now k)) [0 ..< nat count]"
  have ids: "map jid ?new = map uuid [0 ..< nat count]"
    by (simp add: newJob_def)
  have ok: "\<forall>j \<in> set ?new. job_ok j \<and> status j = PENDING"
    by (auto simp: newJob_def job_ok_def)
  have js: "jobs (app (step s (AddJobs cfg count uuid now))) = jobs (app s) @ ?new"
    by (simp add: addJobs_def)
  have fl: "inflight (step s (AddJobs cfg count uuid now)) = inflight s"
    by simp
  have en: "distinct (map uuid [0 ..< nat count])"
    "\<forall>i \<in> set (map uuid [0 ..< nat count]). i \<notin> set (map jid (jobs (app s)))"
    using assms(2) by (simp_all add: Let_def del: set_map set_upt)
  have "distinct (map jid (jobs (app s)))"
    using assms(1) by (simp add: store_inv_def)
  then have d: "distinct (map jid (jobs (app s) @ ?new))"
    unfolding map_append ids distinct_append using en by blast
  have "\<forall>x \<in> set (inflight s). \<forall>j \<in> set ?new. jid j \<noteq> fst x"
  proof (intro ballI notI)
    fix x j assume x: "x \<in> set (inflight s)" and j: "j \<in> set ?new" and e: "jid j = fst x"
    from x assms(1) have "fst x \<in> set (map jid (jobs (app s)))"
      by (simp add: store_inv_def inflight_ok_def)
    moreover from j have "jid j \<in> set (map uuid [0 ..< nat count])"
      unfolding ids [symmetric] by (simp del: map_map)
    ultimately show False using en(2) e by auto
  qed
  then show ?thesis
    using assms(1) ok d unfolding store_inv_def inflight_ok_def js fl
    by auto
qed

lemma store_inv_Tick:
  assumes "store_inv s"
  shows "store_inv (step s (Tick now t1 t2))"
proof (rule processQueue_cases [where now = now and s = "app s" and ?t1.0 = t1 and ?t2.0 = t2], goal_cases)
  case 1
  then have "store_inv (step s (Tick now t1 t2)) = store_inv s"
    by (intro store_inv_cong) simp_all
  then show ?case using assms by simp
next
  case 2
  then have "store_inv (step s (Tick now t1 t2)) = store_inv s"
    by (intro store_inv_cong) simp_all
  then show ?case using assms by simp
next
  case admit: (3 k cfg)
  let ?c = "jobs (app s) ! k"
  let ?u = "no_updates\<lparr>u_startedAt := Some (Some t1)\<rparr>"
  let ?fl = "inflight s @ [(jid ?c, cfg)]"
  have c: "?c \<in> set (jobs (app s))" using admit(4) by simp
  have ok: "job_ok ?c" using assms c by (simp add: store_inv_def)
  have ok': "job_ok (merge_job ?c PROCESSING ?u)"
    using ok admit(5) by (simp add: job_ok_def merge_job_def spread_def no_updates_def)
  have nin: "\<forall>x \<in> set (inflight s). fst x \<noteq> jid ?c"
    using inflight_not_other_status [OF assms c] admit(5) by simp
  have "distinct (map fst (inflight s))"
    using assms by (simp add: store_inv_def inflight_ok_def)
  then have d: "distinct (map fst ?fl)" using nin by auto
  have "store_inv (s\<lparr>app := (app s)\<lparr>jobs := updateJobStatus (jid ?c) PROCESSING ?u (jobs (app s))\<rparr>,
            inflight := ?fl\<rparr>)"
    using assms c ok' d
  proof (rule store_inv_update)
    show "\<forall>x\<in>set ?fl. x \<in> set (inflight s) \<and> fst x \<noteq> jid ?c \<or> fst x = jid ?c \<and> PROCESSING = PROCESSING"
      using nin by auto
  qed
  moreover have "store_inv (step s (Tick now t1 t2)) =
      store_inv (s\<lparr>app := (app s)\<lparr>jobs := updateJobStatus (jid ?c) PROCESSING ?u (jobs (app s))\<rparr>,
            inflight := ?fl\<rparr>)"
    using admit(7) by (intro store_inv_cong) simp_all
  ultimately show ?case by simp
qed

lemma store_inv_Retry:
  assumes "store_inv s" "enabled s (Retry k)"
  shows "store_inv (step s (Retry k))"
proof (cases "status (jobs (app s) ! k) = FAILED")
  case False
  then show ?thesis using assms by (simp add: JobRow_retry_def)
next
  case True
  let ?c = "jobs (app s) ! k"
  let ?u = "no_updates\<lparr>u_error := Some None\<rparr>"
  have c: "?c \<in> set (jobs (app s))" using assms(2) by simp
  have ok: "job_ok ?c" using assms c by (simp add: store_inv_def)
  have ok': "job_ok (merge_job ?c PENDING ?u)"
    using ok True by (simp add: job_ok_def merge_job_def spread_def no_updates_def)
  have nin: "\<forall>x \<in> set (inflight s). fst x \<noteq> jid ?c"
    using inflight_not_other_status [OF assms(1) c] True by simp
  have d: "distinct (map fst (inflight s))"
    using assms by (simp add: store_inv_def inflight_ok_def)
  have "store_inv (s\<lparr>app := (app s)\<lparr>jobs := updateJobStatus (jid ?c) PENDING ?u (jobs (app s))\<rparr>,
            inflight := inflight s\<rparr>)"
    using assms(1) c ok' d
  proof (rule store_inv_update)
    show "\<forall>x\<in>set (inflight s). x \<in> set (inflight s) \<and> fst x \<noteq> jid ?c \<or> fst x = jid ?c \<and> PENDING = PROCESSING"
      using nin by auto
  qed
  then show ?thesis using True by (simp add: JobRow_retry_def handleRetry_def)
qed

lemma inflight_job:
  assumes "store_inv s" "map_of (inflight s) i = Some cfg"
  obtains c where "c \<in> set (jobs (app s))" "jid c = i" "status c = PROCESSING"
proof -
  have "(i, cfg) \<in> set (inflight s)" using assms(2) by (rule map_of_SomeD)
  then have "i \<in> set (map jid (jobs (app s)))"
    "\<forall>j \<in> set (jobs (app s)). jid j = i \<longrightarrow> status j = PROCESSING"
    using assms(1) by (auto simp: store_inv_def inflight_ok_def)
  then show thesis using that by auto
qed

lemma store_inv_Settle:
  assumes "store_inv s" "enabled s (Settle i env now)"
  shows "store_inv (step s (Settle i env now))"
proof -
  from assms(2) obtain cfg where cfg: "map_of (inflight s) i = Some cfg"
    and run: "startJob_try cfg env \<noteq> None"
    by (auto split: option.splits)
  from inflight_job [OF assms(1) cfg] obtain c where
    c: "c \<in> set (jobs (app s))" "jid c = i" "status c = PROCESSING" by blast
  have ok: "job_ok c" using assms c by (simp add: store_inv_def)
  let ?fl = "filter (\<lambda>x. fst x \<noteq> i) (inflight s)"
  have d: "distinct (map fst ?fl)"
    using assms(1) by (simp add: store_inv_def inflight_ok_def distinct_map_filter)
  from run obtain st u where
    settle: "startJob_settle i cfg env now (jobs (app s)) = Some (updateJobStatus i st u (jobs (app s)))"
    and ok': "job_ok (merge_job c st u)" and st: "st \<noteq> PROCESSING"
  proof (cases "startJob_try cfg env")
    case None
    then show ?thesis using run by simp
  next
    case (Some r)
    show ?thesis
    proof (cases r)
      case (Inl err)
      let ?u = "no_updates\<lparr>u_error := Some (Some (or_else (message err) ''Unknown error occurred''))\<rparr>"
      have "job_ok (merge_job c FAILED ?u)"
        using ok c(3) by (simp add: job_ok_def merge_job_def spread_def no_updates_def)
      moreover have "startJob_settle i cfg env now (jobs (app s)) = Some (updateJobStatus i FAILED ?u (jobs (app s)))"
        using Some Inl by (simp add: startJob_settle_def)
      ultimately show ?thesis using that by blast
    next
      case (Inr p)
      obtain uri blob where p: "p = (uri, blob)" by (cases p)
      let ?u = "no_updates\<lparr>u_completedAt := Some (Some now), u_videoUri := Some (Some uri),
                     u_downloadUrl := Some (Some blob)\<rparr>"
      have "job_ok (merge_job c COMPLETED ?u)"
        using ok c(3) by (simp add: job_ok_def merge_job_def spread_def no_updates_def)
      moreover have "startJob_settle i cfg env now (jobs (app s)) = Some (updateJobStatus i COMPLETED ?u (jobs (app s)))"
        using Some Inr p by (simp add: startJob_settle_def)
      ultimately show ?thesis using that by blast
    qed
  qed
  have "store_inv (s\<lparr>app := (app s)\<lparr>jobs := updateJobStatus (jid c) st u (jobs (app s))\<rparr>,
            inflight := ?fl\<rparr>)"
    using assms(1) c(1) ok' d
  proof (rule store_inv_update)
    show "\<forall>x\<in>set ?fl. x \<in> set (inflight s) \<and> fst x \<noteq> jid c \<or> fst x = jid c \<and> st = PROCESSING"
      using c(2) by auto
  qed
  then show ?thesis using cfg settle c(2) by simp
qed

lemma store_inv_step: "store_inv s \<Longrightarrow> enabled s e \<Longrightarrow> store_inv (step s e)"
  by (cases e) (simp_all only: store_inv_AddJobs store_inv_Tick store_inv_Retry store_inv_Settle)

lemma store_inv_reaches: "reaches s s' \<Longrightarrow> store_inv s \<Longrightarrow> store_inv s'"
  by (induction rule: reaches.induct) (auto intro: store_inv_step)

lemma store_inv_reachable: "reachable s \<Longrightarrow> store_inv s"
  unfolding reachable_def using store_inv_reaches store_inv_init by blast

section \<open>A run of the system\<close>

lemma reaches_trans: "reaches s s' \<Longrightarrow> reaches r s \<Longrightarrow> reaches r s'"
  by (induction rule: reaches.induct) (auto intro: reaches_step)

lemma runnable_reaches: "runnable s es \<Longrightarrow> reaches s (foldl step s es)"
proof (induction es arbitrary: s)
  case Nil
  then show ?case by (simp add: reaches_refl)
next
  case (Cons e es)
  then have "reaches (step s e) (foldl step (step s e) es)" by simp
  moreover have "reaches s (step s e)"
    using Cons.prems reaches_refl reaches_step by simp
  ultimately show ?case using reaches_trans by simp
qed

lemma reach3: "reachable run3"
proof -
  have "runnable init exEvents" by code_simp
  then show ?thesis unfolding reachable_def run3_def by (rule runnable_reaches)
qed

lemma reach34: "reaches run3 run4"
proof -
  have "runnable run3 [Tick 10000 10001 10002]" by code_simp
  then show ?thesis unfolding run4_def by (rule runnable_reaches)
qed

lemma reach_busy: "reachable busy"
proof -
  have "runnable init exEvents5" by code_simp
  then show ?thesis unfolding reachable_def busy_def by (rule runnable_reaches)
qed

lemma reach_busy': "reachable busy'"
proof -
  have "runnable busy [Settle ''a'' exRemoteOk 4500]" by code_simp
  then have "reaches busy busy'" unfolding busy'_def by (rule runnable_reaches)
  then show ?thesis using reach_busy reaches_trans unfolding reachable_def by blast
qed

text \<open>C6. In every state that the system reaches, every job satisfies \<open>job_ok\<close>: error
  and result are unset while it is pending or processing, a failed job has an error
  and no result, a completed job has a result and no error. Every event that can
  happen in such a state (a batch of new jobs, a tick, a click on Retry, the end of an
  execution) leads to a state where this holds again.\<close>

theorem job_invariant:
  assumes "reachable s"
  shows "(\<forall>j \<in> set (jobs (app s)). job_ok j)
       \<and> (\<forall>e. enabled s e \<longrightarrow> (\<forall>j \<in> set (jobs (app (step s e))). job_ok j))"
proof -
  have "store_inv s" using assms by (rule store_inv_reachable)
  moreover have "store_inv (step s e)" if "enabled s e" for e
    using \<open>store_inv s\<close> that by (rule store_inv_step)
  ultimately show ?thesis by (simp add: store_inv_def)
qed

theorem job_invariant_witness:
  "reachable run3 \<and> jobs (app run3) ! 0 \<in> set (jobs (app run3))
   \<and> status (jobs (app run3) ! 0) = COMPLETED \<and> job_ok (jobs (app run3) ! 0)
   \<and> enabled run3 (Tick 10000 10001 10002)
   \<and> status (jobs (app (step run3 (Tick 10000 10001 10002))) ! 1) = PROCESSING
   \<and> job_ok (jobs (app (step run3 (Tick 10000 10001 10002))) ! 1)"
proof -
  have m: "jobs (app run3) ! 0 \<in> set (jobs (app run3))" by code_simp
  have c: "status (jobs (app run3) ! 0) = COMPLETED" by code_simp
  have e: "enabled run3 (Tick 10000 10001 10002)" by code_simp
  have m': "jobs (app (step run3 (Tick 10000 10001 10002))) ! 1
      \<in> set (jobs (app (step run3 (Tick 10000 10001 10002))))" by code_simp
  have c': "status (jobs (app (step run3 (Tick 10000 10001 10002))) ! 1) = PROCESSING"
    by code_simp
  from job_invariant [OF reach3] reach3 m c e m' c' show ?thesis by blast
qed

section \<open>Completed jobs\<close>

lemma updateJobStatus_other_nth:
  assumes "k < length js" "c \<in> set js" "distinct (map jid js)" "status (js ! k) \<noteq> status c"
  shows "updateJobStatus (jid c) st u js ! k = js ! k"
proof -
  have "js ! k \<in> set js" using assms(1) by simp
  then have "jid (js ! k) \<noteq> jid c"
    using assms same_jid_same_job by metis
  then show ?thesis using assms(1) by (simp add: nth_updateJobStatus)
qed

lemma step_keeps_completed:
  assumes inv: "store_inv s" and en: "enabled s e"
    and k: "k < length (jobs (app s))" "status (jobs (app s) ! k) = COMPLETED"
  shows "k < length (jobs (app (step s e))) \<and> jobs (app (step s e)) ! k = jobs (app s) ! k"
proof (cases e)
  case (AddJobs cfg count uuid now)
  then show ?thesis using k by (simp add: addJobs_def nth_append)
next
  case (Tick now t1 t2)
  have d: "distinct (map jid (jobs (app s)))" using inv by (simp add: store_inv_def)
  show ?thesis
  proof (rule processQueue_cases [where now = now and s = "app s" and ?t1.0 = t1 and ?t2.0 = t2], goal_cases)
    case 1
    then show ?case using Tick k by simp
  next
    case 2
    then show ?case using Tick k by simp
  next
    case admit: (3 m cfg)
    have "jobs (app s) ! m \<in> set (jobs (app s))" using admit(4) by simp
    then have "updateJobStatus (jid (jobs (app s) ! m)) PROCESSING
        (no_updates\<lparr>u_startedAt := Some (Some t1)\<rparr>) (jobs (app s)) ! k = jobs (app s) ! k"
      using k d admit(5) by (intro updateJobStatus_other_nth) simp_all
    then show ?case using Tick k admit(7) by simp
  qed
next
  case (Retry m)
  show ?thesis
  proof (cases "status (jobs (app s) ! m) = FAILED")
    case False
    then show ?thesis using Retry k by (simp add: JobRow_retry_def)
  next
    case True
    have d: "distinct (map jid (jobs (app s)))" using inv by (simp add: store_inv_def)
    have "jobs (app s) ! m \<in> set (jobs (app s))" using en Retry by simp
    then have "updateJobStatus (jid (jobs (app s) ! m)) PENDING
        (no_updates\<lparr>u_error := Some None\<rparr>) (jobs (app s)) ! k = jobs (app s) ! k"
      using k d True by (intro updateJobStatus_other_nth) simp_all
    then show ?thesis using Retry k True by (simp add: JobRow_retry_def handleRetry_def)
  qed
next
  case (Settle i env now)
  have d: "distinct (map jid (jobs (app s)))" using inv by (simp add: store_inv_def)
  from en Settle obtain cfg where cfg: "map_of (inflight s) i = Some cfg"
    by (auto split: option.splits)
  from inflight_job [OF inv cfg] obtain c where
    c: "c \<in> set (jobs (app s))" "jid c = i" "status c = PROCESSING" by blast
  have same: "updateJobStatus i st u (jobs (app s)) ! k = jobs (app s) ! k" for st u
    using updateJobStatus_other_nth [OF k(1) c(1) d] k(2) c(2,3) by simp
  show ?thesis
  proof (cases "startJob_settle i cfg env now (jobs (app s))")
    case None
    then show ?thesis using Settle cfg k by simp
  next
    case (Some js)
    then obtain st u where "js = updateJobStatus i st u (jobs (app s))"
      by (auto simp: startJob_settle_def split: option.splits sum.splits)
    then show ?thesis using Settle cfg Some k same by simp
  qed
qed

text \<open>C7. A job that is completed in a state the system reaches stays in its place,
  unchanged and completed, in every state that the system reaches from there, whatever
  the events are (batches of new jobs, ticks, clicks on Retry, ends of executions).\<close>

theorem completed_is_terminal:
  assumes "reachable s" and "reaches s s'"
    and "k < length (jobs (app s))" and "status (jobs (app s) ! k) = COMPLETED"
  shows "k < length (jobs (app s')) \<and> jobs (app s') ! k = jobs (app s) ! k
       \<and> status (jobs (app s') ! k) = COMPLETED"
  using assms(2,1,3,4)
proof (induction rule: reaches.induct)
  case (reaches_refl s)
  then show ?case by simp
next
  case (reaches_step s s' e)
  then have k: "k < length (jobs (app s'))" "jobs (app s') ! k = jobs (app s) ! k" by simp_all
  have "store_inv s'"
    using reaches_step.hyps(1) reaches_step.prems(1) store_inv_reachable store_inv_reaches by blast
  then have "k < length (jobs (app (step s' e))) \<and> jobs (app (step s' e)) ! k = jobs (app s') ! k"
    using reaches_step.hyps(2) k reaches_step.prems(3) by (intro step_keeps_completed) simp_all
  then show ?case using k reaches_step.prems(3) by simp
qed

theorem completed_is_terminal_witness:
  "reachable run3 \<and> reaches run3 run4 \<and> 0 < length (jobs (app run3))
   \<and> status (jobs (app run3) ! 0) = COMPLETED
   \<and> jobs (app run4) ! 0 = jobs (app run3) ! 0 \<and> status (jobs (app run4) ! 0) = COMPLETED"
proof -
  have k: "0 < length (jobs (app run3))" "status (jobs (app run3) ! 0) = COMPLETED"
    by code_simp+
  from completed_is_terminal [OF reach3 reach34 k] reach3 reach34 k show ?thesis by blast
qed

section \<open>The concurrency limit\<close>

lemma length_filter_list_update:
  "length (filter P (xs[k := x])) \<le> Suc (length (filter P xs))"
proof (induction xs arbitrary: k)
  case Nil
  then show ?case by simp
next
  case (Cons a xs)
  show ?case
  proof (cases k)
    case 0
    then show ?thesis by simp
  next
    case (Suc m)
    then show ?thesis using Cons.IH [of m] by simp
  qed
qed

lemma processingCount_updateJobStatus:
  "st \<noteq> PROCESSING \<Longrightarrow> processingCount (updateJobStatus i st u js) \<le> processingCount js"
  by (induction js) (auto simp: processingCount_def updateJobStatus_def)

lemma processingCount_addJobs:
  "processingCount (addJobs cfg count uuid now js) = processingCount js"
  by (simp add: processingCount_def addJobs_def newJob_def filter_map comp_def)

lemma processingCount_other_events:
  assumes "\<forall>now t1 t2. e \<noteq> Tick now t1 t2"
  shows "processingCount (jobs (app (step s e))) \<le> processingCount (jobs (app s))"
proof (cases e)
  case (AddJobs cfg count uuid now)
  then show ?thesis by (simp add: processingCount_addJobs)
next
  case (Tick now t1 t2)
  then show ?thesis using assms by simp
next
  case (Retry k)
  then show ?thesis
    by (simp add: JobRow_retry_def handleRetry_def processingCount_updateJobStatus)
next
  case (Settle i env now)
  then show ?thesis
    by (auto simp: startJob_settle_def processingCount_updateJobStatus
        split: option.splits sum.splits)
qed

lemma processQueue_refuses:
  assumes "MAX_CONCURRENT_JOBS \<le> processingCount (jobs a)"
  shows "jobs (fst (processQueue now t1 t2 a)) = jobs a \<and> snd (processQueue now t1 t2 a) = None"
  using assms by (simp add: processQueue_def processingCount_def Let_def)

lemma processingCount_Tick:
  assumes "distinct (map jid (jobs (app s)))" "processingCount (jobs (app s)) \<le> MAX_CONCURRENT_JOBS"
  shows "processingCount (jobs (app (step s (Tick now t1 t2)))) \<le> MAX_CONCURRENT_JOBS"
proof (rule processQueue_cases [where now = now and s = "app s" and ?t1.0 = t1 and ?t2.0 = t2], goal_cases)
  case 1
  then show ?case using assms by simp
next
  case 2
  then show ?case using assms by simp
next
  case admit: (3 k cfg)
  have "jobs (app (step s (Tick now t1 t2))) =
      (jobs (app s))[k := merge_job (jobs (app s) ! k) PROCESSING (no_updates\<lparr>u_startedAt := Some (Some t1)\<rparr>)]"
    using admit(4,7) assms(1) by (simp add: updateJobStatus_distinct)
  then have "processingCount (jobs (app (step s (Tick now t1 t2)))) \<le> Suc (processingCount (jobs (app s)))"
    by (simp add: processingCount_def length_filter_list_update)
  then show ?case using admit(2) by simp
qed

lemma processingCount_reaches:
  "reaches s s' \<Longrightarrow> store_inv s \<Longrightarrow> processingCount (jobs (app s)) \<le> MAX_CONCURRENT_JOBS
   \<Longrightarrow> processingCount (jobs (app s')) \<le> MAX_CONCURRENT_JOBS"
proof (induction rule: reaches.induct)
  case (reaches_refl s)
  then show ?case by simp
next
  case (reaches_step s s' e)
  then have le: "processingCount (jobs (app s')) \<le> MAX_CONCURRENT_JOBS" by simp
  have "store_inv s'" using reaches_step.hyps(1) reaches_step.prems(1) by (rule store_inv_reaches)
  then have d: "distinct (map jid (jobs (app s')))" by (simp add: store_inv_def)
  show ?case
  proof (cases "\<exists>now t1 t2. e = Tick now t1 t2")
    case True
    then show ?thesis using processingCount_Tick [OF d le] by auto
  next
    case False
    then have "processingCount (jobs (app (step s' e))) \<le> processingCount (jobs (app s'))"
      by (intro processingCount_other_events) simp
    then show ?thesis using le by simp
  qed
qed

text \<open>C1. In every state that the system reaches at most \<^verbatim>\<open>MAX_CONCURRENT_JOBS\<close> jobs
  are processing. When that many are processing a tick changes no job and starts none,
  and no event other than a tick raises the number of processing jobs.\<close>

theorem processing_at_most_max_concurrent:
  assumes "reachable s"
  shows "processingCount (jobs (app s)) \<le> MAX_CONCURRENT_JOBS
       \<and> (MAX_CONCURRENT_JOBS \<le> processingCount (jobs (app s)) \<longrightarrow>
            (\<forall>now t1 t2. jobs (fst (processQueue now t1 t2 (app s))) = jobs (app s)
                       \<and> snd (processQueue now t1 t2 (app s)) = None))
       \<and> (\<forall>e. (\<forall>now t1 t2. e \<noteq> Tick now t1 t2) \<longrightarrow>
            processingCount (jobs (app (step s e))) \<le> processingCount (jobs (app s)))"
proof -
  have "processingCount (jobs (app init)) \<le> MAX_CONCURRENT_JOBS"
    by (simp add: init_def processingCount_def)
  then have "processingCount (jobs (app s)) \<le> MAX_CONCURRENT_JOBS"
    using assms store_inv_init processingCount_reaches unfolding reachable_def by blast
  then show ?thesis
    using processQueue_refuses processingCount_other_events by blast
qed

theorem processing_at_most_max_concurrent_witness:
  "reachable busy \<and> processingCount (jobs (app busy)) \<le> MAX_CONCURRENT_JOBS
   \<and> MAX_CONCURRENT_JOBS \<le> processingCount (jobs (app busy))
   \<and> jobs (fst (processQueue 5000 5001 5002 (app busy))) = jobs (app busy)
   \<and> snd (processQueue 5000 5001 5002 (app busy)) = None
   \<and> processingCount (jobs (app (step busy (Retry 0)))) \<le> processingCount (jobs (app busy))"
proof -
  have full: "MAX_CONCURRENT_JOBS \<le> processingCount (jobs (app busy))" by code_simp
  have other: "\<forall>now t1 t2. Retry 0 \<noteq> Tick now t1 t2" by simp
  from processing_at_most_max_concurrent [OF reach_busy] reach_busy full other show ?thesis
    by blast
qed

section \<open>The rate limit\<close>

lemma inWindow_le: "inWindow T ts \<le> length (filter (\<lambda>t. T - t < RATE_LIMIT_WINDOW_MS) ts)"
  by (induction ts) (auto simp: inWindow_def)

lemma inWindow_append_late: "T < t \<Longrightarrow> inWindow T (ts @ [t]) = inWindow T ts"
  by (simp add: inWindow_def)

lemma inWindow_append: "inWindow T (ts @ [t]) \<le> Suc (inWindow T ts)"
  by (simp add: inWindow_def)

lemma filter_window_pruned:
  assumes "now \<le> T"
  shows "filter (\<lambda>t. T - t < RATE_LIMIT_WINDOW_MS) (filter (\<lambda>t. now - t < RATE_LIMIT_WINDOW_MS) ts)
       = filter (\<lambda>t. T - t < RATE_LIMIT_WINDOW_MS) ts"
proof -
  have "(T - t < RATE_LIMIT_WINDOW_MS \<and> now - t < RATE_LIMIT_WINDOW_MS) = (T - t < RATE_LIMIT_WINDOW_MS)" for t
    using assms by auto
  then show ?thesis by (simp add: conj_commute)
qed

lemma rate_inv_Tick:
  assumes inv: "rate_inv s" and en: "clock_steady s (Tick now t1 t2)"
  shows "rate_inv (step s (Tick now t1 t2))"
proof (rule processQueue_cases [where now = now and s = "app s" and ?t1.0 = t1 and ?t2.0 = t2], goal_cases)
  case 1
  let ?valid = "filter (\<lambda>t. now - t < RATE_LIMIT_WINDOW_MS) (queueStarts (app s))"
  have st: "step s (Tick now t1 t2) = s\<lparr>app := (app s)\<lparr>queueStarts := ?valid\<rparr>, clock := now\<rparr>"
    using 1(2) by simp
  have "length (queueStarts (app s)) \<le> MAX_STARTS_PER_WINDOW"
    using inv by (simp add: rate_inv_def)
  then have a: "length ?valid \<le> MAX_STARTS_PER_WINDOW"
    by (rule le_trans [OF length_filter_le])
  have b: "length (filter (\<lambda>t. T - t < RATE_LIMIT_WINDOW_MS) (startsLog s))
      \<le> length (filter (\<lambda>t. T - t < RATE_LIMIT_WINDOW_MS) ?valid)" if "now \<le> T" for T
  proof -
    have "now \<le> T" "clock s \<le> T" using en that by simp_all
    then show ?thesis
      using inv filter_window_pruned [of now T "queueStarts (app s)"]
      by (simp only: rate_inv_def)
  qed
  show ?case unfolding st using a b inv by (simp add: rate_inv_def)
next
  case 2
  then show ?case using inv en by (simp add: rate_inv_def)
next
  case admit: (3 k cfg)
  let ?W = "\<lambda>T t. T - t < RATE_LIMIT_WINDOW_MS"
  have st: "step s (Tick now t1 t2) =
      s\<lparr>app := \<lparr>jobs = updateJobStatus (jid (jobs (app s) ! k)) PROCESSING
                     (no_updates\<lparr>u_startedAt := Some (Some t1)\<rparr>) (jobs (app s)),
                queueStarts = queueStarts (app s) @ [t2]\<rparr>,
        inflight := inflight s @ [(jid (jobs (app s) ! k), cfg)], clock := t2,
        startsLog := startsLog s @ [t2]\<rparr>"
    using admit(7) by simp
  have a: "inWindow T (startsLog s @ [t2]) \<le> MAX_STARTS_PER_WINDOW" for T
  proof (cases "T < t2")
    case True
    then show ?thesis using inv by (simp add: inWindow_append_late rate_inv_def)
  next
    case False
    then have "clock s \<le> T" using en by simp
    then have "length (filter (?W T) (startsLog s)) \<le> length (filter (?W T) (queueStarts (app s)))"
      using inv by (simp add: rate_inv_def)
    also have "\<dots> \<le> length (queueStarts (app s))" by simp
    finally have "inWindow T (startsLog s) < MAX_STARTS_PER_WINDOW"
      using inWindow_le [of T "startsLog s"] admit(3) by simp
    then show ?thesis using inWindow_append [of T "startsLog s" t2] by simp
  qed
  have b: "length (filter (?W T) (startsLog s @ [t2])) \<le> length (filter (?W T) (queueStarts (app s) @ [t2]))"
    if "t2 \<le> T" for T
  proof -
    have "clock s \<le> T" using en that by simp
    then have "length (filter (?W T) (startsLog s)) \<le> length (filter (?W T) (queueStarts (app s)))"
      using inv by (simp add: rate_inv_def)
    then show ?thesis by simp
  qed
  show ?case unfolding st using admit(3) a b by (simp add: rate_inv_def)
qed

lemma rate_inv_step:
  assumes "rate_inv s" "clock_steady s e"
  shows "rate_inv (step s e)"
proof (cases e)
  case (AddJobs cfg count uuid now)
  then show ?thesis using assms(1) by (simp add: rate_inv_def)
next
  case (Tick now t1 t2)
  then show ?thesis using assms rate_inv_Tick by simp
next
  case (Retry k)
  then show ?thesis using assms(1) by (simp add: rate_inv_def split: option.splits)
next
  case (Settle i env now)
  then show ?thesis using assms(1) by (simp add: rate_inv_def split: option.splits)
qed

lemma rate_inv_run: "rate_inv s \<Longrightarrow> steady s es \<Longrightarrow> rate_inv (foldl step s es)"
proof (induction es arbitrary: s)
  case Nil
  then show ?case by simp
next
  case (Cons e es)
  then have "rate_inv (step s e)" "steady (step s e) es"
    by (simp_all add: rate_inv_step)
  then have "rate_inv (foldl step (step s e) es)" by (rule Cons.IH)
  then show ?case by simp
qed

lemma rate_inv_init: "rate_inv init"
  by (simp add: rate_inv_def init_def inWindow_def)

lemma processQueue_queueStarts:
  "queueStarts (fst (processQueue now t1 t2 a)) =
     filter (\<lambda>t. now - t < RATE_LIMIT_WINDOW_MS) (queueStarts a)
     @ (case snd (processQueue now t1 t2 a) of None \<Rightarrow> [] | Some started \<Rightarrow> [t2])"
proof (rule processQueue_cases [where now = now and s = a and ?t1.0 = t1 and ?t2.0 = t2], goal_cases)
  case 1
  then show ?case by simp
next
  case 2
  then show ?case by simp
next
  case (3 k cfg)
  then show ?case by simp
qed

lemma processQueue_rate_refuses:
  assumes "MAX_STARTS_PER_WINDOW \<le> length (filter (\<lambda>t. now - t < RATE_LIMIT_WINDOW_MS) (queueStarts a))"
  shows "jobs (fst (processQueue now t1 t2 a)) = jobs a \<and> snd (processQueue now t1 t2 a) = None"
proof (rule processQueue_cases [where now = now and s = a and ?t1.0 = t1 and ?t2.0 = t2], goal_cases)
  case 1
  then show ?case by simp
next
  case 2
  then show ?case by simp
next
  case (3 k cfg)
  then show ?case using assms by simp
qed

text \<open>C2, as the program has it. Take a run of the system from its first state in which
  the clock is steady (the values of \<^verbatim>\<open>Date.now()\<close> that the ticks read never
  decrease). In the state that it reaches, and for every time \<open>T\<close>, at most
  \<^verbatim>\<open>MAX_STARTS_PER_WINDOW\<close> of all the start timestamps ever recorded lie in the
  window of \<^verbatim>\<open>RATE_LIMIT_WINDOW_MS\<close> milliseconds that ends at \<open>T\<close>; the same holds for
  the timestamps that are in \<^verbatim>\<open>queueStarts\<close>, of which there are never more than
  \<^verbatim>\<open>MAX_STARTS_PER_WINDOW\<close>. Every tick on that state leaves in \<^verbatim>\<open>queueStarts\<close>
  exactly the timestamps with \<open>now - t < RATE_LIMIT_WINDOW_MS\<close>, in their order (those
  with \<open>now - t \<ge> RATE_LIMIT_WINDOW_MS\<close> are pruned), followed by the one timestamp \<open>t2\<close>
  when it starts a job and by nothing when it does not; and a tick that finds
  \<^verbatim>\<open>MAX_STARTS_PER_WINDOW\<close> or more timestamps with \<open>now - t < RATE_LIMIT_WINDOW_MS\<close>
  changes no job and starts none.\<close>

theorem starts_per_window_at_most_max:
  assumes "runnable init es" and "steady init es" and "s = foldl step init es"
  shows "inWindow T (startsLog s) \<le> MAX_STARTS_PER_WINDOW
       \<and> inWindow T (queueStarts (app s)) \<le> MAX_STARTS_PER_WINDOW
       \<and> length (queueStarts (app s)) \<le> MAX_STARTS_PER_WINDOW
       \<and> queueStarts (fst (processQueue now t1 t2 (app s))) =
           filter (\<lambda>t. now - t < RATE_LIMIT_WINDOW_MS) (queueStarts (app s))
           @ (case snd (processQueue now t1 t2 (app s)) of None \<Rightarrow> [] | Some started \<Rightarrow> [t2])
       \<and> (MAX_STARTS_PER_WINDOW
             \<le> length (filter (\<lambda>t. now - t < RATE_LIMIT_WINDOW_MS) (queueStarts (app s))) \<longrightarrow>
            jobs (fst (processQueue now t1 t2 (app s))) = jobs (app s)
            \<and> snd (processQueue now t1 t2 (app s)) = None)"
proof -
  have inv: "rate_inv s"
    using assms(2,3) rate_inv_init rate_inv_run by blast
  have "inWindow T (queueStarts (app s)) \<le> length (queueStarts (app s))"
    by (simp add: inWindow_def)
  then have "inWindow T (startsLog s) \<le> MAX_STARTS_PER_WINDOW
       \<and> inWindow T (queueStarts (app s)) \<le> MAX_STARTS_PER_WINDOW
       \<and> length (queueStarts (app s)) \<le> MAX_STARTS_PER_WINDOW"
    using inv by (auto simp: rate_inv_def)
  then show ?thesis
    using processQueue_rate_refuses processQueue_queueStarts by blast
qed

theorem starts_per_window_at_most_max_witness:
  "runnable init (exEvents5 @ [Settle ''a'' exRemoteOk 4500])
   \<and> steady init (exEvents5 @ [Settle ''a'' exRemoteOk 4500])
   \<and> busy' = foldl step init (exEvents5 @ [Settle ''a'' exRemoteOk 4500])
   \<and> startsLog busy' = [1002, 2002, 3002, 4002]
   \<and> inWindow 5000 (startsLog busy') \<le> MAX_STARTS_PER_WINDOW
   \<and> inWindow 5000 (queueStarts (app busy')) \<le> MAX_STARTS_PER_WINDOW
   \<and> length (queueStarts (app busy')) \<le> MAX_STARTS_PER_WINDOW
   \<and> processingCount (jobs (app busy')) < MAX_CONCURRENT_JOBS
   \<and> status (jobs (app busy') ! 4) = PENDING
   \<and> MAX_STARTS_PER_WINDOW
        \<le> length (filter (\<lambda>t. 5000 - t < RATE_LIMIT_WINDOW_MS) (queueStarts (app busy')))
   \<and> jobs (fst (processQueue 5000 5001 5002 (app busy'))) = jobs (app busy')
   \<and> snd (processQueue 5000 5001 5002 (app busy')) = None
   \<and> queueStarts (fst (processQueue 61002 61003 61004 (app busy'))) = [2002, 3002, 4002]"
proof -
  let ?es = "exEvents5 @ [Settle ''a'' exRemoteOk 4500]"
  have r: "runnable init ?es" by code_simp
  have c: "steady init ?es" by code_simp
  have b: "busy' = foldl step init ?es" by (simp add: busy'_def busy_def)
  have l: "startsLog busy' = [1002, 2002, 3002, 4002]" by code_simp
  have n: "processingCount (jobs (app busy')) < MAX_CONCURRENT_JOBS" by code_simp
  have p: "status (jobs (app busy') ! 4) = PENDING" by code_simp
  have f: "MAX_STARTS_PER_WINDOW
        \<le> length (filter (\<lambda>t. 5000 - t < RATE_LIMIT_WINDOW_MS) (queueStarts (app busy')))"
    by code_simp
  have q: "filter (\<lambda>t. 61002 - t < RATE_LIMIT_WINDOW_MS) (queueStarts (app busy'))
        @ (case snd (processQueue 61002 61003 61004 (app busy')) of None \<Rightarrow> [] | Some started \<Rightarrow> [61004])
        = [2002, 3002, 4002]"
    by code_simp
  note t5 = starts_per_window_at_most_max [OF r c b, of 5000 5000 5001 5002]
  note t6 = starts_per_window_at_most_max [OF r c b, of 5000 61002 61003 61004]
  from t6 q have "queueStarts (fst (processQueue 61002 61003 61004 (app busy'))) = [2002, 3002, 4002]"
    by simp
  with t5 r c b l n p f show ?thesis by blast
qed

text \<open>Without a steady clock the bound on the recorded timestamps fails: in the run
  \<open>exEventsBack\<close>, which the system can make, five recorded start timestamps lie in the
  window that ends at 150002.\<close>

theorem starts_per_window_clock_set_back:
  "reachable setBack
   \<and> startsLog setBack = [100002, 101002, 102002, 103002, 150002]
   \<and> MAX_STARTS_PER_WINDOW < inWindow 150002 (startsLog setBack)"
proof -
  have "runnable init exEventsBack" by code_simp
  then have "reachable setBack"
    unfolding reachable_def setBack_def by (rule runnable_reaches)
  moreover have "startsLog setBack = [100002, 101002, 102002, 103002, 150002]"
    by code_simp
  moreover have "MAX_STARTS_PER_WINDOW < inWindow 150002 (startsLog setBack)"
    by code_simp
  ultimately show ?thesis by blast
qed

end
